theory Spec2Isabelle
  imports Complex_Main "HOL-Library.AList"
begin

section \<open>The simulation engine (simulation/engine.py)\<close>

text \<open>
  A shallow embedding of \<^verbatim>\<open>SimulationEngine\<close>. Python numbers that the source keeps as
  floats or mixes with floats (prices, costs, rates, uniform draws) are exact reals here:
  rounding is not modelled. Visit counts and user ids are Python integers, hence \<open>int\<close>.
\<close>

subsection \<open>Data\<close>

text \<open>
  The value under the key \<^verbatim>\<open>"included"\<close> of a plan is either an integer or
  \<^verbatim>\<open>float('inf')\<close>.
\<close>

datatype included_visits = Visits int | Infinity

record plan =
  name :: string
  price :: real
  included :: included_visits
  extra :: real

text \<open>The attributes set by \<^verbatim>\<open>__init__\<close> that the simulation reads.\<close>

record engine =
  cost_per_visit :: real
  plans :: "plan list"

definition engine_init :: engine where
  "engine_init =
     \<lparr>cost_per_visit = 30,
      plans =
        [\<lparr>name = ''Lite Plan'', price = 20, included = Visits 2, extra = 15\<rparr>,
         \<lparr>name = ''Standard Plan'', price = 50, included = Visits 6, extra = 10\<rparr>,
         \<lparr>name = ''Chronic Care Plan'', price = 90, included = Visits 12, extra = 5\<rparr>,
         \<lparr>name = ''Unlimited Plan'', price = 150, included = Infinity, extra = 0\<rparr>]\<rparr>"

text \<open>One tuple appended to \<^verbatim>\<open>data_rows\<close>, a row of table \<^verbatim>\<open>simulation_results\<close>.\<close>

record row =
  user_id :: int
  user_type :: string
  annual_visits :: int
  chosen_plan :: string
  user_annual_cost :: real
  company_revenue :: real
  company_cost :: real
  company_profit :: real

text \<open>
  The exceptions the modelled code can raise. \<open>OutOfDraws\<close> is not a Python exception:
  it says that the finite tape of random draws given to the model was too short.
\<close>

datatype error = ValueError | TypeError | KeyError | OperationalError | OutOfDraws

definition bind_err :: "error + 'a \<Rightarrow> ('a \<Rightarrow> error + 'b) \<Rightarrow> error + 'b" where
  "bind_err m f = (case m of Inl e \<Rightarrow> Inl e | Inr x \<Rightarrow> f x)"

subsection \<open>Random sources\<close>

text \<open>
  The two generators the module calls, as tapes of the values they will return:
  \<open>uniforms\<close> for \<^verbatim>\<open>random.random()\<close> and \<open>np_poisson\<close> for
  \<^verbatim>\<open>np.random.poisson\<close> (an external sampler; the tape fixes its successive results).
\<close>

record rng =
  uniforms :: "real list"
  np_poisson :: "int list"

definition random_random :: "rng \<Rightarrow> error + (real \<times> rng)" where
  "random_random g =
     (case uniforms g of [] \<Rightarrow> Inl OutOfDraws | u # us \<Rightarrow> Inr (u, g\<lparr>uniforms := us\<rparr>))"

definition np_random_poisson :: "real \<Rightarrow> rng \<Rightarrow> error + (int \<times> rng)" where
  "np_random_poisson lam g =
     (case np_poisson g of [] \<Rightarrow> Inl OutOfDraws | v # vs \<Rightarrow> Inr (v, g\<lparr>np_poisson := vs\<rparr>))"

subsection \<open>\<^verbatim>\<open>_generate_poisson_visit\<close>\<close>

text \<open>
  The fallback loop \<^verbatim>\<open>while p > L: k += 1; p *= random.random()\<close> followed by
  \<^verbatim>\<open>return k - 1\<close>. The test comes before the draw, so a loop that stops draws nothing.
\<close>

fun knuth_loop :: "real \<Rightarrow> int \<Rightarrow> real \<Rightarrow> real list \<Rightarrow> error + (int \<times> real list)" where
  "knuth_loop L k p [] = (if p > L then Inl OutOfDraws else Inr (k - 1, []))"
| "knuth_loop L k p (u # us) =
     (if p > L then knuth_loop L (k + 1) (p * u) us else Inr (k - 1, u # us))"

text \<open>\<open>use_numpy\<close> is the module constant \<^verbatim>\<open>USE_NUMPY\<close>.\<close>

definition generate_poisson_visit :: "bool \<Rightarrow> real \<Rightarrow> rng \<Rightarrow> error + (int \<times> rng)" where
  "generate_poisson_visit use_numpy lam g =
     (if use_numpy then np_random_poisson lam g
      else bind_err (knuth_loop (exp (- lam)) 0 1 (uniforms g))
             (\<lambda>(v, us). Inr (v, g\<lparr>uniforms := us\<rparr>)))"

subsection \<open>\<^verbatim>\<open>run\<close>: the body of the user loop\<close>

text \<open>The \<^verbatim>\<open>if/elif/else\<close> on \<^verbatim>\<open>rand_val\<close>: the pair \<^verbatim>\<open>(user_type, lam)\<close>.\<close>

definition assign_segment :: "real \<Rightarrow> string \<times> real" where
  "assign_segment rand_val =
     (if rand_val < 0.50 then (''Healthy'', 1.0)
      else if rand_val < 0.80 then (''Average'', 5.0)
      else (''Chronic'', 12.0))"

text \<open>
  The dictionary \<^verbatim>\<open>plan_annual_costs\<close> is an association list in insertion order;
  \<open>AList.update\<close> overwrites a key in place and appends a new one, as a Python dict does.
\<close>

type_synonym costs = "(string \<times> real) list"

definition init_costs :: "plan list \<Rightarrow> costs" where
  "init_costs ps = foldl (\<lambda>d p. AList.update (name p) 0 d) [] ps"

text \<open>The bill of one plan for one month: the first four statements of the plan loop.\<close>

definition monthly_bill :: "plan \<Rightarrow> int \<Rightarrow> real" where
  "monthly_bill p monthly_visits =
     price p +
     of_int (case included p of Infinity \<Rightarrow> 0 | Visits n \<Rightarrow> max 0 (monthly_visits - n))
       * extra p"

text \<open>\<^verbatim>\<open>for plan in self.plans: ...; plan_annual_costs[plan['name']] += monthly_bill\<close>\<close>

fun plan_loop :: "plan list \<Rightarrow> int \<Rightarrow> costs \<Rightarrow> error + costs" where
  "plan_loop [] monthly_visits d = Inr d"
| "plan_loop (p # ps) monthly_visits d =
     (case map_of d (name p) of
        None \<Rightarrow> Inl KeyError
      | Some c \<Rightarrow>
          plan_loop ps monthly_visits (AList.update (name p) (c + monthly_bill p monthly_visits) d))"

text \<open>
  \<^verbatim>\<open>for _ in range(12)\<close>, with the number of months left as the counter. The state is
  \<^verbatim>\<open>(plan_annual_costs, total_annual_visits)\<close> and the random sources.
\<close>

fun month_loop ::
  "plan list \<Rightarrow> bool \<Rightarrow> real \<Rightarrow> nat \<Rightarrow> costs \<Rightarrow> int \<Rightarrow> rng \<Rightarrow> error + (costs \<times> int \<times> rng)" where
  "month_loop ps use_numpy lam 0 d visits g = Inr (d, visits, g)"
| "month_loop ps use_numpy lam (Suc n) d visits g =
     bind_err (generate_poisson_visit use_numpy lam g) (\<lambda>(monthly_visits, g').
     bind_err (plan_loop ps monthly_visits d) (\<lambda>d'.
       month_loop ps use_numpy lam n d' (visits + monthly_visits) g'))"

text \<open>
  \<^verbatim>\<open>min(d, key=d.get)\<close>: the keys are visited in insertion order and a later key
  replaces the best one only when its value is strictly smaller. An empty dictionary raises
  \<^verbatim>\<open>ValueError\<close>.
\<close>

fun min_loop :: "string \<times> real \<Rightarrow> costs \<Rightarrow> string \<times> real" where
  "min_loop best [] = best"
| "min_loop best (kv # d) = min_loop (if snd kv < snd best then kv else best) d"

definition min_key :: "costs \<Rightarrow> error + string" where
  "min_key d = (case d of [] \<Rightarrow> Inl ValueError | kv # d' \<Rightarrow> Inr (fst (min_loop kv d')))"

definition lookup :: "costs \<Rightarrow> string \<Rightarrow> error + real" where
  "lookup d k = (case map_of d k of None \<Rightarrow> Inl KeyError | Some c \<Rightarrow> Inr c)"

text \<open>
  The end of one iteration of the user loop: the choice of the plan and the tuple appended
  to \<^verbatim>\<open>data_rows\<close>.
\<close>

definition make_row :: "engine \<Rightarrow> int \<Rightarrow> string \<Rightarrow> costs \<Rightarrow> int \<Rightarrow> error + row" where
  "make_row e uid utype plan_annual_costs total_annual_visits =
     bind_err (min_key plan_annual_costs) (\<lambda>best_plan_name.
     bind_err (lookup plan_annual_costs best_plan_name) (\<lambda>cost.
       Inr \<lparr>user_id = uid, user_type = utype, annual_visits = total_annual_visits,
            chosen_plan = best_plan_name, user_annual_cost = cost,
            company_revenue = cost,
            company_cost = of_int total_annual_visits * cost_per_visit e,
            company_profit = cost - of_int total_annual_visits * cost_per_visit e\<rparr>))"

text \<open>One iteration of \<^verbatim>\<open>for user_id in range(1, num_users + 1)\<close>.\<close>

definition simulate_user :: "engine \<Rightarrow> bool \<Rightarrow> int \<Rightarrow> rng \<Rightarrow> error + (row \<times> rng)" where
  "simulate_user e use_numpy uid g =
     bind_err (random_random g) (\<lambda>(rand_val, g1).
     case assign_segment rand_val of (utype, lam) \<Rightarrow>
     bind_err (month_loop (plans e) use_numpy lam 12 (init_costs (plans e)) 0 g1)
       (\<lambda>(plan_annual_costs, total_annual_visits, g2).
     bind_err (make_row e uid utype plan_annual_costs total_annual_visits) (\<lambda>r.
       Inr (r, g2))))"

fun user_loop :: "engine \<Rightarrow> bool \<Rightarrow> int list \<Rightarrow> row list \<Rightarrow> rng \<Rightarrow> error + (row list \<times> rng)" where
  "user_loop e use_numpy [] data_rows g = Inr (data_rows, g)"
| "user_loop e use_numpy (uid # uids) data_rows g =
     bind_err (simulate_user e use_numpy uid g) (\<lambda>(r, g').
       user_loop e use_numpy uids (data_rows @ [r]) g')"

subsection \<open>The database, \<^verbatim>\<open>run\<close> and \<^verbatim>\<open>analyze\<close>\<close>

text \<open>
  The database file holds at most the table \<^verbatim>\<open>simulation_results\<close>: \<open>None\<close> when the
  table does not exist, else its rows in insertion order.
\<close>

type_synonym db = "row list option"

definition setup_db :: "db \<Rightarrow> db" where
  "setup_db old = Some []"

text \<open>
  \<^verbatim>\<open>run\<close> recreates the table, simulates the users and inserts all rows at the end. The
  ids \<^verbatim>\<open>range(1, num_users + 1)\<close> are distinct, so the primary key never rejects a row.
\<close>

definition run :: "engine \<Rightarrow> bool \<Rightarrow> int \<Rightarrow> rng \<Rightarrow> db \<Rightarrow> error + (db \<times> rng)" where
  "run e use_numpy num_users g old =
     (case setup_db old of
        None \<Rightarrow> Inl OperationalError
      | Some table \<Rightarrow>
          bind_err (user_loop e use_numpy [1..num_users] [] g) (\<lambda>(data_rows, g').
            Inr (Some (table @ data_rows), g')))"

text \<open>SQL \<^verbatim>\<open>SUM\<close> over no rows is \<^verbatim>\<open>NULL\<close>, which Python reads as \<^verbatim>\<open>None\<close>.\<close>

definition sql_sum :: "real list \<Rightarrow> real option" where
  "sql_sum xs = (if xs = [] then None else Some (sum_list xs))"

text \<open>
  \<^verbatim>\<open>GROUP BY chosen_plan ORDER BY COUNT(*) DESC\<close>: the counts that occur, largest first,
  each with the plans chosen that many times. SQL leaves the order of groups with equal
  counts to the database engine, so the plans of one count are a set.
\<close>

definition plan_counts :: "row list \<Rightarrow> (nat \<times> string set) list" where
  "plan_counts rows =
     (let chosen = map chosen_plan rows;
          names = remdups chosen;
          counts = rev (sort (remdups (map (count_list chosen) names)))
      in map (\<lambda>c. (c, set (filter (\<lambda>n. count_list chosen n = c) names))) counts)"

record report =
  total_profit :: real
  plan_selection :: "(nat \<times> string set) list"

text \<open>
  \<^verbatim>\<open>analyze\<close> prints the report; the model returns what is printed. The format
  \<^verbatim>\<open>{total_profit:,.2f}\<close> applied to \<^verbatim>\<open>None\<close> raises \<^verbatim>\<open>TypeError\<close>.
\<close>

definition analyze :: "db \<Rightarrow> error + report" where
  "analyze d =
     (case d of
        None \<Rightarrow> Inl OperationalError
      | Some rows \<Rightarrow>
          (case sql_sum (map company_profit rows) of
             None \<Rightarrow> Inl TypeError
           | Some profit \<Rightarrow> Inr \<lparr>total_profit = profit, plan_selection = plan_counts rows\<rparr>))"

subsection \<open>The draws of a run, and costs recomputed from them\<close>

text \<open>
  The specification's SyntheticUser: the segment and the twelve monthly visit counts drawn
  for one user. The functions below make the same calls to the random sources as
  \<^verbatim>\<open>run\<close>, in the same order, and compute no cost.
\<close>

record synthetic_user =
  su_id :: int
  su_segment :: string
  su_visits :: "int list"

fun draw_visits :: "bool \<Rightarrow> real \<Rightarrow> nat \<Rightarrow> rng \<Rightarrow> error + (int list \<times> rng)" where
  "draw_visits use_numpy lam 0 g = Inr ([], g)"
| "draw_visits use_numpy lam (Suc n) g =
     bind_err (generate_poisson_visit use_numpy lam g) (\<lambda>(v, g').
     bind_err (draw_visits use_numpy lam n g') (\<lambda>(vs, g'').
       Inr (v # vs, g'')))"

definition draw_user :: "bool \<Rightarrow> int \<Rightarrow> rng \<Rightarrow> error + (synthetic_user \<times> rng)" where
  "draw_user use_numpy uid g =
     bind_err (random_random g) (\<lambda>(rand_val, g1).
     case assign_segment rand_val of (utype, lam) \<Rightarrow>
     bind_err (draw_visits use_numpy lam 12 g1) (\<lambda>(vs, g2).
       Inr (\<lparr>su_id = uid, su_segment = utype, su_visits = vs\<rparr>, g2)))"

fun synthetic_users ::
  "bool \<Rightarrow> int list \<Rightarrow> rng \<Rightarrow> error + (synthetic_user list \<times> rng)" where
  "synthetic_users use_numpy [] g = Inr ([], g)"
| "synthetic_users use_numpy (uid # uids) g =
     bind_err (draw_user use_numpy uid g) (\<lambda>(u, g').
     bind_err (synthetic_users use_numpy uids g') (\<lambda>(us, g'').
       Inr (u # us, g'')))"

text \<open>The annual cost of a plan, recomputed from the monthly visit counts alone.\<close>

definition annual_cost :: "plan \<Rightarrow> int list \<Rightarrow> real" where
  "annual_cost p vs = sum_list (map (monthly_bill p) vs)"

text \<open>
  What one month and one year add to the entry of key \<open>k\<close>: the bills of every plan of
  that name (one plan, when the names of the catalog are distinct).
\<close>

definition bill_for :: "plan list \<Rightarrow> int \<Rightarrow> string \<Rightarrow> real" where
  "bill_for ps v k = sum_list (map (\<lambda>p. monthly_bill p v) (filter (\<lambda>p. name p = k) ps))"

definition year_costs :: "plan list \<Rightarrow> int list \<Rightarrow> costs" where
  "year_costs ps vs =
     map (\<lambda>(k, c). (k, c + sum_list (map (\<lambda>v. bill_for ps v k) vs))) (init_costs ps)"

definition row_of :: "engine \<Rightarrow> synthetic_user \<Rightarrow> error + row" where
  "row_of e u =
     make_row e (su_id u) (su_segment u) (year_costs (plans e) (su_visits u))
       (sum_list (su_visits u))"

text \<open>
  \<open>first_min xs i\<close>: position \<open>i\<close> holds the least value of \<open>xs\<close> and no earlier
  position does.
\<close>

definition first_min :: "real list \<Rightarrow> nat \<Rightarrow> bool" where
  "first_min xs i \<longleftrightarrow>
     i < length xs \<and> (\<forall>j<length xs. xs ! i \<le> xs ! j) \<and> (\<forall>j<i. xs ! i < xs ! j)"

text \<open>
  The tapes hold enough draws for \<open>users\<close> segment draws and \<open>visits\<close> visit counts.
  With numpy each takes one value of its tape. The fallback takes its draws from the
  uniform tape: when every draw lies in \<open>[0, c]\<close> and \<open>c ^ M \<le> exp (- 12)\<close>, the product
  \<open>p\<close> reaches the threshold \<open>exp (- lam)\<close> of each of the three rates within \<open>M\<close>
  draws. (\<^verbatim>\<open>random.random()\<close> returns multiples of \<open>2 ^ - 53\<close> below 1, so such a \<open>c\<close>
  exists for every run of the program.)
\<close>

definition enough_draws :: "bool \<Rightarrow> real \<Rightarrow> nat \<Rightarrow> nat \<Rightarrow> nat \<Rightarrow> rng \<Rightarrow> bool" where
  "enough_draws use_numpy c M users visits g =
     (if use_numpy then users \<le> length (uniforms g) \<and> visits \<le> length (np_poisson g)
      else 0 \<le> c \<and> c ^ M \<le> exp (- 12) \<and> (\<forall>u\<in>set (uniforms g). 0 \<le> u \<and> u \<le> c) \<and>
           users + visits * M \<le> length (uniforms g))"

section \<open>Properties of the loops\<close>

subsection \<open>Errors and the cost dictionary\<close>

lemma bind_err_simps [simp]: "bind_err (Inl e) f = Inl e" "bind_err (Inr x) f = f x"
  by (simp_all add: bind_err_def)

lemma bind_err_eq_Inr: "bind_err m f = Inr y \<longleftrightarrow> (\<exists>x. m = Inr x \<and> f x = Inr y)"
  by (cases m) simp_all

lemma update_as_map:
  "distinct (map fst d) \<Longrightarrow> map_of d k = Some c \<Longrightarrow>
   AList.update k c' d = map (\<lambda>(k', x). (k', if k' = k then c' else x)) d"
proof (induction d)
  case Nil
  then show ?case by simp
next
  case (Cons a d)
  obtain k0 c0 where a: "a = (k0, c0)" by (cases a)
  show ?case
  proof (cases "k0 = k")
    case True
    with Cons.prems a have "k \<notin> fst ` set d" by auto
    then have "map (\<lambda>(k', x). (k', if k' = k then c' else x)) d = d"
      by (induction d) auto
    with True a show ?thesis by simp
  next
    case False
    with Cons a show ?thesis by simp
  qed
qed

lemma bill_for_Cons:
  "bill_for (p # ps) v k = (if name p = k then monthly_bill p v else 0) + bill_for ps v k"
  by (simp add: bill_for_def)

lemma plan_loop_char:
  "distinct (map fst d) \<Longrightarrow> name ` set ps \<subseteq> fst ` set d \<Longrightarrow>
   plan_loop ps v d = Inr (map (\<lambda>(k, c). (k, c + bill_for ps v k)) d)"
proof (induction ps arbitrary: d)
  case Nil
  then show ?case by (simp add: bill_for_def)
next
  case (Cons p ps)
  from Cons.prems have "name p \<in> fst ` set d" by simp
  then obtain c where c: "map_of d (name p) = Some c"
    by (metis domD dom_map_of_conv_image_fst)
  let ?d1 = "map (\<lambda>(k', x). (k', if k' = name p then c + monthly_bill p v else x)) d"
  have upd: "AList.update (name p) (c + monthly_bill p v) d = ?d1"
    using Cons.prems(1) c by (rule update_as_map)
  have keys: "map fst ?d1 = map fst d" by (induction d) auto
  have "plan_loop ps v ?d1 = Inr (map (\<lambda>(k, c). (k, c + bill_for ps v k)) ?d1)"
  proof (rule Cons.IH)
    show "distinct (map fst ?d1)" by (subst keys) (rule Cons.prems(1))
    have "fst ` set ?d1 = fst ` set d" using keys by (metis set_map)
    then show "name ` set ps \<subseteq> fst ` set ?d1" using Cons.prems(2) by simp
  qed
  moreover have "map (\<lambda>(k, c). (k, c + bill_for ps v k)) ?d1
      = map (\<lambda>(k, c). (k, c + bill_for (p # ps) v k)) d"
  proof (rule nth_equalityI)
    show "length (map (\<lambda>(k, c). (k, c + bill_for ps v k)) ?d1)
        = length (map (\<lambda>(k, c). (k, c + bill_for (p # ps) v k)) d)" by simp
  next
    fix i assume "i < length (map (\<lambda>(k, c). (k, c + bill_for ps v k)) ?d1)"
    then have i: "i < length d" by simp
    obtain k0 c0 where kc: "d ! i = (k0, c0)" by (cases "d ! i")
    have "map_of d k0 = Some c0" using Cons.prems(1) i kc
      by (metis map_of_is_SomeI nth_mem)
    then have "k0 = name p \<Longrightarrow> c0 = c" using c by simp
    then show "map (\<lambda>(k, c). (k, c + bill_for ps v k)) ?d1 ! i
        = map (\<lambda>(k, c). (k, c + bill_for (p # ps) v k)) d ! i"
      using i kc by (auto simp: bill_for_Cons)
  qed
  ultimately show ?case using c upd by simp
qed

lemma keys_map_values: "map fst (map (\<lambda>(k, c). (k, f k c)) d) = map fst d"
  by (induction d) auto

lemma month_loop_char:
  "distinct (map fst d) \<Longrightarrow> name ` set ps \<subseteq> fst ` set d \<Longrightarrow>
   month_loop ps np lam n d visits g =
     bind_err (draw_visits np lam n g) (\<lambda>(vs, g').
       Inr (map (\<lambda>(k, c). (k, c + sum_list (map (\<lambda>v. bill_for ps v k) vs))) d,
            visits + sum_list vs, g'))"
proof (induction n arbitrary: d visits g)
  case 0
  have "map (\<lambda>(k, c). (k, c + (0::real))) d = d" by (induction d) auto
  then show ?case by simp
next
  case (Suc n)
  define G where
    "G = (\<lambda>d vs. map (\<lambda>(k, c). (k, c + sum_list (map (\<lambda>v. bill_for ps v k) vs))) d)"
  have goal: "month_loop ps np lam (Suc n) d visits g =
     bind_err (draw_visits np lam (Suc n) g) (\<lambda>(vs, g'). Inr (G d vs, visits + sum_list vs, g'))"
  proof (cases "generate_poisson_visit np lam g")
    case (Inl er)
    then show ?thesis by simp
  next
    case (Inr vg)
    obtain v g1 where vg: "vg = (v, g1)" by (cases vg)
    define d1 where "d1 = map (\<lambda>(k, c). (k, c + bill_for ps v k)) d"
    have pl: "plan_loop ps v d = Inr d1"
      unfolding d1_def using Suc.prems by (rule plan_loop_char)
    have keys: "map fst d1 = map fst d" unfolding d1_def by (rule keys_map_values)
    have dist: "distinct (map fst d1)" by (subst keys) (rule Suc.prems(1))
    have "fst ` set d1 = fst ` set d" using keys by (metis set_map)
    then have sub: "name ` set ps \<subseteq> fst ` set d1" using Suc.prems(2) by simp
    have comp: "G d1 vs = G d (v # vs)" for vs
      unfolding G_def d1_def by (induction d) (auto simp: add.assoc)
    have ih: "month_loop ps np lam n d1 (visits + v) g1 =
       bind_err (draw_visits np lam n g1) (\<lambda>(vs, g').
         Inr (G d1 vs, (visits + v) + sum_list vs, g'))"
      unfolding G_def by (rule Suc.IH [OF dist sub])
    show ?thesis
    proof (cases "draw_visits np lam n g1")
      case (Inl er)
      then show ?thesis using Inr vg pl ih by simp
    next
      case (Inr r)
      obtain vs g2 where r: "r = (vs, g2)" by (cases r)
      show ?thesis
        using \<open>generate_poisson_visit np lam g = Inr vg\<close> vg pl ih Inr r
        by (simp add: comp add.assoc)
    qed
  qed
  then show ?case unfolding G_def .
qed

lemma init_costs_snoc: "init_costs (ps @ [p]) = AList.update (name p) 0 (init_costs ps)"
  by (simp add: init_costs_def)

lemma init_costs_distinct: "distinct (map fst (init_costs ps))"
proof (induction ps rule: rev_induct)
  case Nil
  then show ?case by (simp add: init_costs_def)
next
  case (snoc p ps)
  then show ?case by (simp add: init_costs_snoc distinct_update)
qed

lemma init_costs_dom: "fst ` set (init_costs ps) = name ` set ps"
proof (induction ps rule: rev_induct)
  case Nil
  then show ?case by (simp add: init_costs_def)
next
  case (snoc p ps)
  then show ?case by (simp add: init_costs_snoc dom_update)
qed

lemma set_update_subset: "set (AList.update k v d) \<subseteq> insert (k, v) (set d)"
  by (induction d) auto

lemma init_costs_zero: "kc \<in> set (init_costs ps) \<Longrightarrow> snd kc = 0"
proof (induction ps arbitrary: kc rule: rev_induct)
  case Nil
  then show ?case by (simp add: init_costs_def)
next
  case (snoc p ps)
  from snoc.prems have "kc \<in> insert (name p, 0) (set (init_costs ps))"
    using set_update_subset by (fastforce simp: init_costs_snoc)
  with snoc.IH show ?case by (cases kc) auto
qed

lemma init_costs_of_distinct:
  "distinct (map name ps) \<Longrightarrow> init_costs ps = map (\<lambda>p. (name p, 0)) ps"
proof (induction ps rule: rev_induct)
  case Nil
  then show ?case by (simp add: init_costs_def)
next
  case (snoc p ps)
  then have ih: "init_costs ps = map (\<lambda>p. (name p, 0)) ps" by simp
  from snoc.prems have "name p \<notin> fst ` set (map (\<lambda>p. (name p, 0::real)) ps)"
    by (auto simp: image_iff)
  then have "AList.update (name p) 0 (map (\<lambda>p. (name p, 0::real)) ps)
      = map (\<lambda>p. (name p, 0)) ps @ [(name p, 0)]"
    by (induction ps) auto
  with ih show ?case by (simp add: init_costs_snoc)
qed

lemma simulate_user_char:
  "simulate_user e np uid g =
     bind_err (draw_user np uid g) (\<lambda>(u, g'). bind_err (row_of e u) (\<lambda>r. Inr (r, g')))"
proof (cases "random_random g")
  case (Inl er)
  then show ?thesis by (simp add: simulate_user_def draw_user_def)
next
  case (Inr ug)
  obtain rand_val g1 where ug: "ug = (rand_val, g1)" by (cases ug)
  obtain utype lam where seg: "assign_segment rand_val = (utype, lam)"
    by (cases "assign_segment rand_val")
  have ml: "month_loop (plans e) np lam 12 (init_costs (plans e)) 0 g1 =
     bind_err (draw_visits np lam 12 g1) (\<lambda>(vs, g').
       Inr (year_costs (plans e) vs, 0 + sum_list vs, g'))"
    unfolding year_costs_def
    by (rule month_loop_char) (simp_all add: init_costs_distinct init_costs_dom)
  show ?thesis
  proof (cases "draw_visits np lam 12 g1")
    case (Inl er)
    then show ?thesis
      using \<open>random_random g = Inr ug\<close> ug seg ml
      by (simp add: simulate_user_def draw_user_def)
  next
    case (Inr r)
    obtain vs g2 where r: "r = (vs, g2)" by (cases r)
    show ?thesis
      using \<open>random_random g = Inr ug\<close> ug seg ml Inr r
      by (simp add: simulate_user_def draw_user_def row_of_def)
  qed
qed

lemma user_loop_Inr_iff:
  "user_loop e np uids acc g = Inr (rows, g') \<longleftrightarrow>
     (\<exists>us rs. synthetic_users np uids g = Inr (us, g') \<and> rows = acc @ rs \<and>
        list_all2 (\<lambda>u r. row_of e u = Inr r) us rs)"
proof (induction uids arbitrary: acc g)
  case Nil
  then show ?case by auto
next
  case (Cons uid uids)
  show ?case
  proof (cases "draw_user np uid g")
    case (Inl er)
    then show ?thesis by (simp add: simulate_user_char)
  next
    case (Inr ug)
    obtain u g1 where ug: "ug = (u, g1)" by (cases ug)
    show ?thesis
    proof (cases "row_of e u")
      case (Inl er)
      have "\<not> list_all2 (\<lambda>u r. row_of e u = Inr r) (u # us) rs" for us rs
        using Inl by (cases rs) simp_all
      then show ?thesis
        using \<open>draw_user np uid g = Inr ug\<close> ug Inl
        by (auto simp: simulate_user_char bind_err_eq_Inr)
    next
      case (Inr r)
      have "user_loop e np (uid # uids) acc g = user_loop e np uids (acc @ [r]) g1"
        using \<open>draw_user np uid g = Inr ug\<close> ug Inr by (simp add: simulate_user_char)
      also have "\<dots> = Inr (rows, g') \<longleftrightarrow>
        (\<exists>us rs. synthetic_users np uids g1 = Inr (us, g') \<and> rows = (acc @ [r]) @ rs \<and>
          list_all2 (\<lambda>u r. row_of e u = Inr r) us rs)"
        by (rule Cons.IH)
      also have "\<dots> \<longleftrightarrow>
        (\<exists>us rs. synthetic_users np (uid # uids) g = Inr (us, g') \<and> rows = acc @ rs \<and>
          list_all2 (\<lambda>u r. row_of e u = Inr r) us rs)"
        (is "?L \<longleftrightarrow> ?R")
      proof
        assume ?L
        then obtain us rs where h: "synthetic_users np uids g1 = Inr (us, g')"
          "rows = (acc @ [r]) @ rs" "list_all2 (\<lambda>u r. row_of e u = Inr r) us rs" by blast
        have "synthetic_users np (uid # uids) g = Inr (u # us, g')"
          using \<open>draw_user np uid g = Inr ug\<close> ug h(1) by simp
        moreover have "rows = acc @ (r # rs)" using h(2) by simp
        moreover have "list_all2 (\<lambda>u r. row_of e u = Inr r) (u # us) (r # rs)"
          using h(3) Inr by simp
        ultimately show ?R by blast
      next
        assume ?R
        then obtain us rs where h: "synthetic_users np (uid # uids) g = Inr (us, g')"
          "rows = acc @ rs" "list_all2 (\<lambda>u r. row_of e u = Inr r) us rs" by blast
        from h(1) obtain us' where us': "synthetic_users np uids g1 = Inr (us', g')" "us = u # us'"
          using \<open>draw_user np uid g = Inr ug\<close> ug by (auto simp: bind_err_eq_Inr)
        from h(3) us'(2) obtain r' rs' where rs: "rs = r' # rs'" "row_of e u = Inr r'"
          "list_all2 (\<lambda>u r. row_of e u = Inr r) us' rs'"
          by (cases rs) auto
        from rs(2) Inr have "r' = r" by simp
        with h(2) rs(1) have "rows = (acc @ [r]) @ rs'" by simp
        with us'(1) rs(3) show ?L by blast
      qed
      finally show ?thesis .
    qed
  qed
qed

subsection \<open>The choice of the plan, and the rows of a run\<close>

lemma min_loop_char:
  "first_min (map snd pre) i \<Longrightarrow>
   \<exists>i'. first_min (map snd (pre @ d)) i' \<and> min_loop (pre ! i) d = (pre @ d) ! i'"
proof (induction d arbitrary: pre i)
  case Nil
  then show ?case by auto
next
  case (Cons kv d)
  from Cons.prems have i: "i < length pre"
    and le: "\<forall>j<length pre. snd (pre ! i) \<le> snd (pre ! j)"
    and lt: "\<forall>j<i. snd (pre ! i) < snd (pre ! j)"
    by (auto simp: first_min_def)
  show ?case
  proof (cases "snd kv < snd (pre ! i)")
    case True
    have "first_min (map snd (pre @ [kv])) (length pre)"
      unfolding first_min_def
    proof (intro conjI allI impI)
      show "length pre < length (map snd (pre @ [kv]))" by simp
    next
      fix j assume "j < length (map snd (pre @ [kv]))"
      then have "j < length pre \<or> j = length pre" by auto
      then show "map snd (pre @ [kv]) ! length pre \<le> map snd (pre @ [kv]) ! j"
        using True le by (auto simp: nth_append)
    next
      fix j assume "j < length pre"
      then show "map snd (pre @ [kv]) ! length pre < map snd (pre @ [kv]) ! j"
        using True le by (auto simp: nth_append)
    qed
    from Cons.IH [OF this] obtain i' where
      "first_min (map snd ((pre @ [kv]) @ d)) i'"
      "min_loop ((pre @ [kv]) ! length pre) d = ((pre @ [kv]) @ d) ! i'" by blast
    then show ?thesis using True by auto
  next
    case False
    have "first_min (map snd (pre @ [kv])) i"
      unfolding first_min_def
    proof (intro conjI allI impI)
      show "i < length (map snd (pre @ [kv]))" using i by simp
    next
      fix j assume "j < length (map snd (pre @ [kv]))"
      then have "j < length pre \<or> j = length pre" by auto
      then show "map snd (pre @ [kv]) ! i \<le> map snd (pre @ [kv]) ! j"
        using False le i by (auto simp: nth_append)
    next
      fix j assume "j < i"
      then show "map snd (pre @ [kv]) ! i < map snd (pre @ [kv]) ! j"
        using lt i by (auto simp: nth_append)
    qed
    from Cons.IH [OF this] obtain i' where
      "first_min (map snd ((pre @ [kv]) @ d)) i'"
      "min_loop ((pre @ [kv]) ! i) d = ((pre @ [kv]) @ d) ! i'" by blast
    then show ?thesis using False i by (auto simp: nth_append)
  qed
qed

lemma min_key_char:
  assumes "d \<noteq> []"
  shows "\<exists>i. first_min (map snd d) i \<and> min_key d = Inr (fst (d ! i))"
proof -
  from assms obtain kv d' where d: "d = kv # d'" by (cases d) auto
  have "first_min (map snd [kv]) 0" by (simp add: first_min_def)
  from min_loop_char [OF this, of d'] obtain i' where
    "first_min (map snd ([kv] @ d')) i'" "min_loop ([kv] ! 0) d' = ([kv] @ d') ! i'" by blast
  then show ?thesis using d by (auto simp: min_key_def)
qed

lemma lookup_nth:
  "distinct (map fst d) \<Longrightarrow> i < length d \<Longrightarrow> lookup d (fst (d ! i)) = Inr (snd (d ! i))"
proof -
  assume a: "distinct (map fst d)" "i < length d"
  then have "map_of d (fst (d ! i)) = Some (snd (d ! i))"
    by (metis map_of_is_SomeI nth_mem prod.collapse)
  then show ?thesis by (simp add: lookup_def)
qed

lemma filter_name_distinct:
  "distinct (map name ps) \<Longrightarrow> p \<in> set ps \<Longrightarrow> filter (\<lambda>q. name q = name p) ps = [p]"
proof (induction ps)
  case Nil
  then show ?case by simp
next
  case (Cons a ps)
  show ?case
  proof (cases "a = p")
    case True
    with Cons.prems have "\<forall>q\<in>set ps. name q \<noteq> name p" by (auto simp: image_iff)
    then have "filter (\<lambda>q. name q = name p) ps = []" by (simp add: filter_empty_conv)
    with True show ?thesis by simp
  next
    case False
    with Cons.prems have "p \<in> set ps" "name a \<noteq> name p" by (auto simp: image_iff)
    with Cons show ?thesis by simp
  qed
qed

lemma year_costs_distinct:
  assumes "distinct (map name ps)"
  shows "year_costs ps vs = map (\<lambda>p. (name p, annual_cost p vs)) ps"
proof -
  have "bill_for ps v (name p) = monthly_bill p v" if "p \<in> set ps" for p v
    using filter_name_distinct [OF assms that] by (simp add: bill_for_def)
  then have "\<forall>p\<in>set ps. 0 + sum_list (map (\<lambda>v. bill_for ps v (name p)) vs) = annual_cost p vs"
    by (simp add: annual_cost_def)
  then show ?thesis
    by (simp add: year_costs_def init_costs_of_distinct [OF assms] o_def)
qed

lemma year_costs_keys: "map fst (year_costs ps vs) = map fst (init_costs ps)"
  unfolding year_costs_def by (rule keys_map_values)

lemma row_of_fields:
  assumes "row_of e u = Inr r"
  shows "user_id r = su_id u" "user_type r = su_segment u"
    "annual_visits r = sum_list (su_visits u)"
    "company_revenue r = user_annual_cost r"
    "company_cost r = of_int (annual_visits r) * cost_per_visit e"
    "company_profit r = company_revenue r - company_cost r"
  using assms by (auto simp: row_of_def make_row_def bind_err_eq_Inr)

lemma row_of_choice:
  assumes "row_of e u = Inr r"
  shows "\<exists>i. first_min (map snd (year_costs (plans e) (su_visits u))) i \<and>
     chosen_plan r = fst (year_costs (plans e) (su_visits u) ! i) \<and>
     user_annual_cost r = snd (year_costs (plans e) (su_visits u) ! i)"
proof -
  let ?d = "year_costs (plans e) (su_visits u)"
  from assms obtain k c where k: "min_key ?d = Inr k" and c: "lookup ?d k = Inr c"
    and r: "chosen_plan r = k" "user_annual_cost r = c"
    by (auto simp: row_of_def make_row_def bind_err_eq_Inr)
  from k have "?d \<noteq> []" by (auto simp: min_key_def)
  from min_key_char [OF this] k obtain i where i: "first_min (map snd ?d) i" "k = fst (?d ! i)"
    by auto
  have "distinct (map fst ?d)" by (simp add: year_costs_keys init_costs_distinct)
  moreover from i(1) have "i < length ?d" by (simp add: first_min_def)
  ultimately have "lookup ?d (fst (?d ! i)) = Inr (snd (?d ! i))" by (rule lookup_nth)
  with c i(2) have "c = snd (?d ! i)" by simp
  with i r show ?thesis by blast
qed

lemma row_of_total:
  assumes "plans e \<noteq> []"
  shows "\<exists>r. row_of e u = Inr r"
proof -
  let ?d = "year_costs (plans e) (su_visits u)"
  have "fst ` set ?d = name ` set (plans e)"
    by (metis year_costs_keys init_costs_dom set_map)
  with assms have ne: "?d \<noteq> []" by auto
  from min_key_char [OF this] obtain i where i: "first_min (map snd ?d) i"
    "min_key ?d = Inr (fst (?d ! i))" by blast
  have "distinct (map fst ?d)" by (simp add: year_costs_keys init_costs_distinct)
  moreover from i(1) have "i < length ?d" by (simp add: first_min_def)
  ultimately have "lookup ?d (fst (?d ! i)) = Inr (snd (?d ! i))" by (rule lookup_nth)
  with i(2) show ?thesis by (simp add: row_of_def make_row_def)
qed

lemma run_Inr_iff:
  "run e np N g old = Inr (d, g') \<longleftrightarrow>
     (\<exists>us rows. d = Some rows \<and> synthetic_users np [1..N] g = Inr (us, g') \<and>
        list_all2 (\<lambda>u r. row_of e u = Inr r) us rows)"
proof -
  have "run e np N g old = Inr (d, g') \<longleftrightarrow>
      (\<exists>rows. d = Some rows \<and> user_loop e np [1..N] [] g = Inr (rows, g'))"
    by (auto simp: run_def setup_db_def bind_err_eq_Inr)
  then show ?thesis by (auto simp: user_loop_Inr_iff)
qed

lemma draw_visits_length:
  "draw_visits np lam n g = Inr (vs, g') \<Longrightarrow> length vs = n"
  by (induction n arbitrary: g vs) (auto simp: bind_err_eq_Inr)

lemma draw_user_fields:
  "draw_user np uid g = Inr (u, g') \<Longrightarrow> su_id u = uid \<and> length (su_visits u) = 12"
proof -
  assume a: "draw_user np uid g = Inr (u, g')"
  then obtain rand_val g1 where r: "random_random g = Inr (rand_val, g1)"
    by (auto simp: draw_user_def bind_err_eq_Inr)
  obtain utype lam where seg: "assign_segment rand_val = (utype, lam)"
    by (cases "assign_segment rand_val")
  from a r seg obtain vs where vs: "draw_visits np lam 12 g1 = Inr (vs, g')"
    and u: "u = \<lparr>su_id = uid, su_segment = utype, su_visits = vs\<rparr>"
    by (auto simp: draw_user_def bind_err_eq_Inr)
  from draw_visits_length [OF vs] u show ?thesis by simp
qed

lemma synthetic_users_fields:
  "synthetic_users np uids g = Inr (us, g') \<Longrightarrow>
     map su_id us = uids \<and> (\<forall>u\<in>set us. length (su_visits u) = 12)"
proof (induction uids arbitrary: g us)
  case Nil
  then show ?case by simp
next
  case (Cons uid uids)
  from Cons.prems obtain u g1 us' where h: "draw_user np uid g = Inr (u, g1)"
    "synthetic_users np uids g1 = Inr (us', g')" "us = u # us'"
    by (auto simp: bind_err_eq_Inr)
  from draw_user_fields [OF h(1)] Cons.IH [OF h(2)] h(3) show ?case by simp
qed

lemma run_row_of:
  assumes "run e np N g old = Inr (Some rows, g')"
    and "synthetic_users np [1..N] g = Inr (us, g'')"
  shows "length us = length rows" "k < length rows \<Longrightarrow> row_of e (us ! k) = Inr (rows ! k)"
proof -
  from assms(1) obtain us' where "synthetic_users np [1..N] g = Inr (us', g')"
    and "list_all2 (\<lambda>u r. row_of e u = Inr r) us' rows"
    by (auto simp: run_Inr_iff)
  with assms(2) have l: "list_all2 (\<lambda>u r. row_of e u = Inr r) us rows" by simp
  then show "length us = length rows" by (rule list_all2_lengthD)
  show "row_of e (us ! k) = Inr (rows ! k)" if "k < length rows"
    using l that by (simp add: list_all2_conv_all_nth)
qed

lemmas run_defs = run_def setup_db_def upto.simps simulate_user_def random_random_def
  assign_segment_def eval_nat_numeral engine_init_def init_costs_def
  generate_poisson_visit_def np_random_poisson_def monthly_bill_def min_key_def lookup_def
  make_row_def draw_user_def

subsection \<open>Sums of bills\<close>

lemma annual_cost_replicate: "annual_cost p (replicate n v) = of_nat n * monthly_bill p v"
  by (simp add: annual_cost_def map_replicate_const sum_list_replicate)

lemma member_le_sum_list_real:
  fixes xs :: "real list"
  shows "\<forall>x\<in>set xs. 0 \<le> x \<Longrightarrow> y \<in> set xs \<Longrightarrow> y \<le> sum_list xs"
proof (induction xs)
  case Nil
  then show ?case by simp
next
  case (Cons a xs)
  have "0 \<le> sum_list xs" using Cons.prems(1) by (simp add: sum_list_nonneg)
  moreover have "0 \<le> a" using Cons.prems(1) by simp
  ultimately show ?case using Cons by auto
qed

lemma sum_list_lower_bound:
  fixes f :: "'a \<Rightarrow> real"
  shows "\<forall>x\<in>set xs. m \<le> f x \<Longrightarrow> of_nat (length xs) * m \<le> sum_list (map f xs)"
  by (induction xs) (auto simp: algebra_simps)

lemma monthly_bill_ge_price: "0 \<le> extra p \<Longrightarrow> price p \<le> monthly_bill p v"
  by (cases "included p") (simp_all add: monthly_bill_def)

subsection \<open>Enough draws: the loops return\<close>

lemma knuth_loop_returns:
  assumes "0 \<le> c" and "\<forall>u\<in>set us. 0 \<le> u \<and> u \<le> c"
    and "0 \<le> p" and "p * c ^ m \<le> L" and "m \<le> length us"
  shows "\<exists>v us'. knuth_loop L k p us = Inr (v, us') \<and> length us \<le> length us' + m \<and>
           set us' \<subseteq> set us"
  using assms(2-)
proof (induction us arbitrary: k p m)
  case Nil
  then show ?case by simp
next
  case (Cons u us)
  show ?case
  proof (cases "p > L")
    case False
    then show ?thesis by simp
  next
    case True
    with Cons.prems(3) have "m \<noteq> 0" by (cases m) auto
    then obtain m' where m: "m = Suc m'" by (cases m) auto
    from Cons.prems(1) have u: "0 \<le> u" "u \<le> c" by simp_all
    have "(p * u) * c ^ m' \<le> (p * c) * c ^ m'"
      using u Cons.prems(2) assms(1)
      by (intro mult_right_mono mult_left_mono) simp_all
    also have "\<dots> = p * c ^ m" by (simp add: m)
    finally have le: "(p * u) * c ^ m' \<le> L" using Cons.prems(3) by simp
    have "\<exists>v us'. knuth_loop L (k + 1) (p * u) us = Inr (v, us') \<and>
        length us \<le> length us' + m' \<and> set us' \<subseteq> set us"
    proof (rule Cons.IH)
      show "\<forall>u\<in>set us. 0 \<le> u \<and> u \<le> c" using Cons.prems(1) by simp
      show "0 \<le> p * u" using Cons.prems(2) u by simp
      show "p * u * c ^ m' \<le> L" by (rule le)
      show "m' \<le> length us" using Cons.prems(4) m by simp
    qed
    then show ?thesis using True m by auto
  qed
qed

lemma assign_segment_rate: "snd (assign_segment u) \<le> 12"
  by (simp add: assign_segment_def)

lemma generate_poisson_visit_ok:
  assumes "enough_draws np c M users (Suc visits) g" and "lam \<le> 12"
  shows "\<exists>v g'. generate_poisson_visit np lam g = Inr (v, g') \<and>
           enough_draws np c M users visits g'"
proof (cases np)
  case True
  with assms(1) obtain v vs where "np_poisson g = v # vs"
    by (cases "np_poisson g") (auto simp: enough_draws_def)
  with True assms(1) show ?thesis
    by (auto simp: generate_poisson_visit_def np_random_poisson_def enough_draws_def)
next
  case False
  with assms(1) have c: "0 \<le> c" and cM: "c ^ M \<le> exp (- 12)"
    and b: "\<forall>u\<in>set (uniforms g). 0 \<le> u \<and> u \<le> c"
    and len: "users + Suc visits * M \<le> length (uniforms g)"
    by (simp_all add: enough_draws_def)
  have "exp (- 12) \<le> exp (- lam)" using assms(2) by simp
  with cM have "c ^ M \<le> exp (- lam)" by (rule order_trans)
  then have "1 * c ^ M \<le> exp (- lam)" by simp
  moreover have "M \<le> length (uniforms g)" using len by simp
  ultimately obtain v us' where k: "knuth_loop (exp (- lam)) 0 1 (uniforms g) = Inr (v, us')"
    and l: "length (uniforms g) \<le> length us' + M" and s: "set us' \<subseteq> set (uniforms g)"
    using knuth_loop_returns [OF c b, of 1 M "exp (- lam)" 0] by auto
  have "enough_draws np c M users visits (g\<lparr>uniforms := us'\<rparr>)"
    using False c cM b len l s by (auto simp: enough_draws_def)
  with k False show ?thesis by (simp add: generate_poisson_visit_def)
qed

lemma draw_visits_ok:
  assumes "enough_draws np c M users (n + visits) g" and "lam \<le> 12"
  shows "\<exists>vs g'. draw_visits np lam n g = Inr (vs, g') \<and> enough_draws np c M users visits g'"
  using assms(1)
proof (induction n arbitrary: g)
  case 0
  then show ?case by simp
next
  case (Suc n)
  then have "enough_draws np c M users (Suc (n + visits)) g" by simp
  from generate_poisson_visit_ok [OF this assms(2)] obtain v g1 where
    v: "generate_poisson_visit np lam g = Inr (v, g1)"
    and e: "enough_draws np c M users (n + visits) g1" by blast
  from Suc.IH [OF e] obtain vs g2 where "draw_visits np lam n g1 = Inr (vs, g2)"
    "enough_draws np c M users visits g2" by blast
  with v show ?case by simp
qed

lemma random_random_ok:
  assumes "enough_draws np c M (Suc users) visits g"
  shows "\<exists>u g'. random_random g = Inr (u, g') \<and> enough_draws np c M users visits g'"
proof -
  from assms have "uniforms g \<noteq> []" by (auto simp: enough_draws_def split: if_splits)
  then obtain u us where u: "uniforms g = u # us" by (cases "uniforms g") auto
  with assms have "enough_draws np c M users visits (g\<lparr>uniforms := us\<rparr>)"
    by (auto simp: enough_draws_def split: if_splits)
  with u show ?thesis by (simp add: random_random_def)
qed

lemma draw_user_ok:
  assumes "enough_draws np c M (Suc users) (12 + visits) g"
  shows "\<exists>u g'. draw_user np uid g = Inr (u, g') \<and> enough_draws np c M users visits g'"
proof -
  from random_random_ok [OF assms] obtain rand_val g1 where
    r: "random_random g = Inr (rand_val, g1)"
    and e: "enough_draws np c M users (12 + visits) g1" by blast
  obtain utype lam where seg: "assign_segment rand_val = (utype, lam)"
    by (cases "assign_segment rand_val")
  then have "lam \<le> 12" using assign_segment_rate [of rand_val] by simp
  from draw_visits_ok [OF e this] obtain vs g2 where
    "draw_visits np lam 12 g1 = Inr (vs, g2)" "enough_draws np c M users visits g2" by blast
  with r seg show ?thesis by (simp add: draw_user_def)
qed

lemma synthetic_users_ok:
  assumes "enough_draws np c M (length uids + users) (12 * length uids + visits) g"
  shows "\<exists>us g'. synthetic_users np uids g = Inr (us, g') \<and> enough_draws np c M users visits g'"
  using assms
proof (induction uids arbitrary: g)
  case Nil
  then show ?case by simp
next
  case (Cons uid uids)
  then have "enough_draws np c M (Suc (length uids + users))
      (12 + (12 * length uids + visits)) g" by (simp add: algebra_simps)
  from draw_user_ok [OF this] obtain u g1 where u: "draw_user np uid g = Inr (u, g1)"
    and e: "enough_draws np c M (length uids + users) (12 * length uids + visits) g1" by blast
  from Cons.IH [OF e] obtain us g2 where "synthetic_users np uids g1 = Inr (us, g2)"
    "enough_draws np c M users visits g2" by blast
  with u show ?case by simp
qed

lemma rows_of_users:
  assumes "plans e \<noteq> []"
  shows "\<exists>rows. list_all2 (\<lambda>u r. row_of e u = Inr r) us rows"
proof (induction us)
  case Nil
  then show ?case by simp
next
  case (Cons u us)
  then obtain rows where "list_all2 (\<lambda>u r. row_of e u = Inr r) us rows" by blast
  moreover from row_of_total [OF assms] obtain r where "row_of e u = Inr r" by blast
  ultimately have "list_all2 (\<lambda>u r. row_of e u = Inr r) (u # us) (r # rows)" by simp
  then show ?case by blast
qed

subsection \<open>The result of the fallback sampler\<close>

lemma knuth_loop_result:
  "knuth_loop L k p us = Inr (v, us') \<Longrightarrow> k - 1 \<le> v \<and> (L < p \<longrightarrow> k \<le> v)"
proof (induction us arbitrary: k p)
  case Nil
  then show ?case by (auto split: if_splits)
next
  case (Cons u us)
  show ?case
  proof (cases "L < p")
    case True
    with Cons.prems have "knuth_loop L (k + 1) (p * u) us = Inr (v, us')" by simp
    from Cons.IH [OF this] True show ?thesis by simp
  next
    case False
    with Cons.prems show ?thesis by simp
  qed
qed

lemma poisson_fallback_nonneg:
  assumes "0 < lam" and "generate_poisson_visit False lam g = Inr (v, g')"
  shows "0 \<le> v"
proof -
  from assms(2) obtain us' where "knuth_loop (exp (- lam)) 0 1 (uniforms g) = Inr (v, us')"
    by (auto simp: generate_poisson_visit_def bind_err_eq_Inr)
  from knuth_loop_result [OF this] assms(1) show ?thesis by simp
qed

subsection \<open>What a run depends on\<close>

lemma random_random_np:
  "random_random (g\<lparr>np_poisson := x\<rparr>) =
     map_sum id (apsnd (\<lambda>g. g\<lparr>np_poisson := x\<rparr>)) (random_random g)"
  by (cases "uniforms g") (simp_all add: random_random_def)

lemma generate_poisson_visit_np:
  "generate_poisson_visit False lam (g\<lparr>np_poisson := x\<rparr>) =
     map_sum id (apsnd (\<lambda>g. g\<lparr>np_poisson := x\<rparr>)) (generate_poisson_visit False lam g)"
  by (cases "knuth_loop (exp (- lam)) 0 1 (uniforms g)")
     (auto simp: generate_poisson_visit_def)

lemma draw_visits_np:
  "draw_visits False lam n (g\<lparr>np_poisson := x\<rparr>) =
     map_sum id (apsnd (\<lambda>g. g\<lparr>np_poisson := x\<rparr>)) (draw_visits False lam n g)"
proof (induction n arbitrary: g)
  case 0
  then show ?case by simp
next
  case (Suc n)
  show ?case
  proof (cases "generate_poisson_visit False lam g")
    case (Inl er)
    then show ?thesis by (simp add: generate_poisson_visit_np)
  next
    case (Inr vg)
    obtain v g1 where vg: "vg = (v, g1)" by (cases vg)
    show ?thesis
    proof (cases "draw_visits False lam n g1")
      case (Inl er)
      then show ?thesis using Inr vg Suc.IH [of g1] by (simp add: generate_poisson_visit_np)
    next
      case (Inr r)
      obtain vs g2 where "r = (vs, g2)" by (cases r)
      then show ?thesis
        using \<open>generate_poisson_visit False lam g = Inr vg\<close> vg Inr Suc.IH [of g1]
        by (simp add: generate_poisson_visit_np)
    qed
  qed
qed

lemma draw_user_np:
  "draw_user False uid (g\<lparr>np_poisson := x\<rparr>) =
     map_sum id (apsnd (\<lambda>g. g\<lparr>np_poisson := x\<rparr>)) (draw_user False uid g)"
proof (cases "random_random g")
  case (Inl er)
  then show ?thesis by (simp add: draw_user_def random_random_np)
next
  case (Inr ug)
  obtain rand_val g1 where ug: "ug = (rand_val, g1)" by (cases ug)
  obtain utype lam where seg: "assign_segment rand_val = (utype, lam)"
    by (cases "assign_segment rand_val")
  show ?thesis
  proof (cases "draw_visits False lam 12 g1")
    case (Inl er)
    then show ?thesis using Inr ug seg
      by (simp add: draw_user_def random_random_np draw_visits_np)
  next
    case (Inr r)
    obtain vs g2 where "r = (vs, g2)" by (cases r)
    then show ?thesis using \<open>random_random g = Inr ug\<close> ug seg Inr
      by (simp add: draw_user_def random_random_np draw_visits_np)
  qed
qed

lemma simulate_user_np:
  "simulate_user e False uid (g\<lparr>np_poisson := x\<rparr>) =
     map_sum id (apsnd (\<lambda>g. g\<lparr>np_poisson := x\<rparr>)) (simulate_user e False uid g)"
proof (cases "draw_user False uid g")
  case (Inl er)
  then show ?thesis by (simp add: simulate_user_char draw_user_np)
next
  case (Inr ug)
  obtain u g1 where ug: "ug = (u, g1)" by (cases ug)
  show ?thesis using Inr ug
    by (cases "row_of e u") (simp_all add: simulate_user_char draw_user_np)
qed

lemma user_loop_np:
  "user_loop e False uids acc (g\<lparr>np_poisson := x\<rparr>) =
     map_sum id (apsnd (\<lambda>g. g\<lparr>np_poisson := x\<rparr>)) (user_loop e False uids acc g)"
proof (induction uids arbitrary: acc g)
  case Nil
  then show ?case by simp
next
  case (Cons uid uids)
  show ?case
  proof (cases "simulate_user e False uid g")
    case (Inl er)
    then show ?thesis by (simp add: simulate_user_np)
  next
    case (Inr rg)
    obtain r g1 where "rg = (r, g1)" by (cases rg)
    then show ?thesis using Inr Cons.IH [of "acc @ [r]" g1] by (simp add: simulate_user_np)
  qed
qed

lemma run_np:
  "run e False n (g\<lparr>np_poisson := x\<rparr>) old =
     map_sum id (apsnd (\<lambda>g. g\<lparr>np_poisson := x\<rparr>)) (run e False n g old)"
proof (cases "user_loop e False [1..n] [] g")
  case (Inl er)
  then show ?thesis by (simp add: run_def setup_db_def user_loop_np)
next
  case (Inr rg)
  obtain rows g1 where "rg = (rows, g1)" by (cases rg)
  then show ?thesis using Inr by (simp add: run_def setup_db_def user_loop_np)
qed

lemma run_old: "run e np n g old1 = run e np n g old2"
  by (simp add: run_def setup_db_def)

section \<open>The claims\<close>

text \<open>
  C1. In a run whose catalog has distinct plan names, row \<open>k\<close> belongs to the \<open>k\<close>-th
  simulated user, who has twelve monthly draws; the chosen plan is the first plan of the
  catalog whose annual cost, recomputed from these draws, is the least over the catalog, and
  \<open>user_annual_cost\<close> is that cost.
\<close>

theorem selection_is_first_argmin:
  assumes "distinct (map name (plans e))"
    and "run e use_numpy num_users g old = Inr (Some rows, g')"
    and "synthetic_users use_numpy [1..num_users] g = Inr (us, g'')"
    and "k < length rows"
  shows "su_id (us ! k) = user_id (rows ! k) \<and> length (su_visits (us ! k)) = 12 \<and>
    (\<exists>i. first_min (map (\<lambda>p. annual_cost p (su_visits (us ! k))) (plans e)) i \<and>
       chosen_plan (rows ! k) = name (plans e ! i) \<and>
       user_annual_cost (rows ! k) = annual_cost (plans e ! i) (su_visits (us ! k)))"
proof -
  let ?u = "us ! k" and ?r = "rows ! k"
  have len: "length us = length rows" and ro: "row_of e ?u = Inr ?r"
    using run_row_of [OF assms(2,3)] assms(4) by simp_all
  then have mem: "?u \<in> set us" using assms(4) by simp
  have id: "su_id ?u = user_id ?r" using row_of_fields(1) [OF ro] by simp
  have l12: "length (su_visits ?u) = 12"
    using synthetic_users_fields [OF assms(3)] mem by blast
  let ?d = "year_costs (plans e) (su_visits ?u)"
  have d: "?d = map (\<lambda>p. (name p, annual_cost p (su_visits ?u))) (plans e)"
    using assms(1) by (rule year_costs_distinct)
  from row_of_choice [OF ro] obtain i where i: "first_min (map snd ?d) i"
    "chosen_plan ?r = fst (?d ! i)" "user_annual_cost ?r = snd (?d ! i)" by blast
  have vals: "map snd ?d = map (\<lambda>p. annual_cost p (su_visits ?u)) (plans e)"
    by (simp add: d o_def)
  from i(1) have "i < length (plans e)" by (simp add: first_min_def d)
  then have "fst (?d ! i) = name (plans e ! i)"
    "snd (?d ! i) = annual_cost (plans e ! i) (su_visits ?u)" by (simp_all add: d)
  with i vals have "first_min (map (\<lambda>p. annual_cost p (su_visits ?u)) (plans e)) i \<and>
       chosen_plan ?r = name (plans e ! i) \<and>
       user_annual_cost ?r = annual_cost (plans e ! i) (su_visits ?u)" by simp
  with id l12 show ?thesis by blast
qed

theorem selection_is_first_argmin_witness:
  "\<exists>i. first_min (map (\<lambda>p. annual_cost p [3, 0, 2, 7, 1, 4, 0, 3, 5, 2, 6, 3])
           (plans engine_init)) i \<and>
     ''Lite Plan'' = name (plans engine_init ! i) \<and>
     495 = annual_cost (plans engine_init ! i) [3, 0, 2, 7, 1, 4, 0, 3, 5, 2, 6, 3]"
proof -
  let ?g = "\<lparr>uniforms = [0.6], np_poisson = [3, 0, 2, 7, 1, 4, 0, 3, 5, 2, 6, 3]\<rparr>"
  let ?r = "\<lparr>user_id = 1, user_type = ''Average'', annual_visits = 36,
             chosen_plan = ''Lite Plan'', user_annual_cost = 495,
             company_revenue = 495, company_cost = 1080, company_profit = - 585\<rparr>"
  let ?u = "\<lparr>su_id = 1, su_segment = ''Average'',
             su_visits = [3, 0, 2, 7, 1, 4, 0, 3, 5, 2, 6, 3]\<rparr>"
  have d: "distinct (map name (plans engine_init))" by (simp add: engine_init_def)
  have r: "run engine_init True 1 ?g None = Inr (Some [?r], \<lparr>uniforms = [], np_poisson = []\<rparr>)"
    by (simp add: run_defs)
  have s: "synthetic_users True [1..1] ?g = Inr ([?u], \<lparr>uniforms = [], np_poisson = []\<rparr>)"
    by (simp add: run_defs)
  have k: "0 < length [?r]" by simp
  from selection_is_first_argmin [OF d r s k] show ?thesis by simp
qed

text \<open>
  C2 (code defect). The claim: for every rate \<open>\<lambda> \<ge> 0\<close> the fallback sampler returns an
  integer \<open>\<ge> 0\<close>, and for \<open>\<lambda> = 0\<close> it returns 0. At \<open>\<lambda> = 0\<close> the threshold \<open>L\<close> is
  \<open>exp 0 = 1\<close>, the test \<open>p > L\<close> fails before the first draw with \<open>k = 0\<close>, and the
  function returns \<open>k - 1 = -1\<close>, whatever the random source holds.
\<close>

theorem poisson_fallback_zero_rate:
  "generate_poisson_visit False 0 g = Inr (- 1, g)"
  by (cases "uniforms g") (simp_all add: generate_poisson_visit_def)

text \<open>
  C3 (code defect). The claim: with \<open>num_users = 0\<close> the run produces no row and the report
  completes without a fault. The run does leave an empty table, for every catalog and
  random source; \<^verbatim>\<open>analyze\<close> on that table raises \<^verbatim>\<open>TypeError\<close>, because the sum of
  no profit is \<^verbatim>\<open>None\<close> and the report formats it as a number.
\<close>

theorem analyze_after_empty_run:
  "run e use_numpy 0 g old = Inr (Some [], g) \<and> analyze (Some []) = Inl TypeError"
  by (simp add: run_def setup_db_def analyze_def sql_sum_def)

text \<open>
  C4. With the default catalog and \<open>cost_per_visit = 30\<close>, a user whose twelve monthly
  draws are all 6 has the annual costs 960 (Lite), 600 (Standard), 1080 (Chronic Care) and
  1800 (Unlimited); the row of that user chooses the Standard plan, with
  \<open>user_annual_cost = 600\<close>, 72 annual visits, \<open>company_cost = 2160\<close> and
  \<open>company_profit = -1560\<close>.
\<close>

theorem scenario_six_visits:
  assumes "run engine_init use_numpy num_users g old = Inr (Some rows, g')"
    and "synthetic_users use_numpy [1..num_users] g = Inr (us, g'')"
    and "k < length rows"
    and "su_visits (us ! k) = replicate 12 6"
  shows "map (\<lambda>p. (name p, annual_cost p (su_visits (us ! k)))) (plans engine_init) =
      [(''Lite Plan'', 960), (''Standard Plan'', 600), (''Chronic Care Plan'', 1080),
       (''Unlimited Plan'', 1800)] \<and>
    chosen_plan (rows ! k) = ''Standard Plan'' \<and> user_annual_cost (rows ! k) = 600 \<and>
    annual_visits (rows ! k) = 72 \<and> company_revenue (rows ! k) = 600 \<and>
    company_cost (rows ! k) = 2160 \<and> company_profit (rows ! k) = - 1560"
proof -
  let ?u = "us ! k" and ?r = "rows ! k"
  have ro: "row_of engine_init ?u = Inr ?r"
    using run_row_of(2) [OF assms(1,2,3)] .
  have dist: "distinct (map name (plans engine_init))" by (simp add: engine_init_def)
  have costs: "map (\<lambda>p. (name p, annual_cost p (su_visits ?u))) (plans engine_init) =
      [(''Lite Plan'', 960), (''Standard Plan'', 600), (''Chronic Care Plan'', 1080),
       (''Unlimited Plan'', 1800)]"
    by (simp add: assms(4) annual_cost_replicate engine_init_def monthly_bill_def)
  have yc: "year_costs (plans engine_init) (su_visits ?u) =
      [(''Lite Plan'', 960), (''Standard Plan'', 600), (''Chronic Care Plan'', 1080),
       (''Unlimited Plan'', 1800)]"
    using year_costs_distinct [OF dist, of "su_visits ?u"] costs by simp
  have cpv: "cost_per_visit engine_init = 30" by (simp add: engine_init_def)
  have vis: "sum_list (su_visits ?u) = 72"
    by (simp add: assms(4) sum_list_replicate)
  have "?r = \<lparr>user_id = su_id ?u, user_type = su_segment ?u, annual_visits = 72,
       chosen_plan = ''Standard Plan'', user_annual_cost = 600, company_revenue = 600,
       company_cost = 2160, company_profit = - 1560\<rparr>"
    using ro cpv by (simp add: row_of_def yc vis make_row_def min_key_def lookup_def)
  then have "chosen_plan ?r = ''Standard Plan'' \<and> user_annual_cost ?r = 600 \<and>
    annual_visits ?r = 72 \<and> company_revenue ?r = 600 \<and>
    company_cost ?r = 2160 \<and> company_profit ?r = - 1560"
    by (metis row.select_convs(3,4,5,6,7,8))
  with costs show ?thesis by blast
qed

theorem scenario_six_visits_witness:
  "\<exists>rows g'.
     run engine_init True 1 \<lparr>uniforms = [0.6], np_poisson = replicate 12 6\<rparr> None
       = Inr (Some rows, g') \<and>
     chosen_plan (rows ! 0) = ''Standard Plan'' \<and> user_annual_cost (rows ! 0) = 600 \<and>
     annual_visits (rows ! 0) = 72 \<and> company_revenue (rows ! 0) = 600 \<and>
     company_cost (rows ! 0) = 2160 \<and> company_profit (rows ! 0) = - 1560"
proof -
  let ?g = "\<lparr>uniforms = [0.6], np_poisson = replicate 12 6\<rparr>"
  let ?u = "\<lparr>su_id = 1, su_segment = ''Average'', su_visits = replicate 12 6\<rparr>"
  obtain rows g' where r: "run engine_init True 1 ?g None = Inr (Some rows, g')"
    and l: "length rows = 1"
    by (simp add: run_defs)
  have s: "synthetic_users True [1..1] ?g = Inr ([?u], \<lparr>uniforms = [], np_poisson = []\<rparr>)"
    by (simp add: run_defs)
  have k: "0 < length rows" using l by simp
  have v: "su_visits ([?u] ! 0) = replicate 12 6" by simp
  from scenario_six_visits [OF r s k v] r show ?thesis by blast
qed

text \<open>
  C5. The monthly bill never decreases when the visit count grows: for every plan of the
  default catalog, and for every plan whose price of an extra visit is not negative,
  \<open>v1 \<le> v2\<close> gives \<open>monthly_bill p v1 \<le> monthly_bill p v2\<close>.
\<close>

theorem monthly_bill_mono:
  assumes "p \<in> set (plans engine_init) \<or> 0 \<le> extra p" and "v1 \<le> v2"
  shows "monthly_bill p v1 \<le> monthly_bill p v2"
proof -
  from assms(1) have ex: "0 \<le> extra p" by (auto simp: engine_init_def)
  show ?thesis
  proof (cases "included p")
    case Infinity
    then show ?thesis by (simp add: monthly_bill_def)
  next
    case (Visits n)
    from assms(2) have "max 0 (v1 - n) \<le> max 0 (v2 - n)" by simp
    then have "real_of_int (max 0 (v1 - n)) \<le> real_of_int (max 0 (v2 - n))"
      by (simp only: of_int_le_iff)
    then have "real_of_int (max 0 (v1 - n)) * extra p \<le> real_of_int (max 0 (v2 - n)) * extra p"
      using ex by (rule mult_right_mono)
    with Visits show ?thesis by (simp add: monthly_bill_def)
  qed
qed

theorem monthly_bill_mono_witness:
  "monthly_bill \<lparr>name = ''Lite Plan'', price = 20, included = Visits 2, extra = 15\<rparr> 1
     \<le> monthly_bill \<lparr>name = ''Lite Plan'', price = 20, included = Visits 2, extra = 15\<rparr> 6"
  using monthly_bill_mono
    [of "\<lparr>name = ''Lite Plan'', price = 20, included = Visits 2, extra = 15\<rparr>" 1 6]
  by (simp add: engine_init_def)

text \<open>
  C6. A plan whose included visits are \<^verbatim>\<open>float('inf')\<close> bills exactly its monthly price,
  for every visit count and whatever its price of an extra visit.
\<close>

theorem unlimited_bill_is_price:
  "included p = Infinity \<Longrightarrow> monthly_bill p v = price p"
  by (simp add: monthly_bill_def)

theorem unlimited_bill_is_price_witness:
  "monthly_bill \<lparr>name = ''Unlimited Plan'', price = 150, included = Infinity, extra = 7\<rparr> 100
     = 150"
  using unlimited_bill_is_price
    [of "\<lparr>name = ''Unlimited Plan'', price = 150, included = Infinity, extra = 7\<rparr>" 100]
  by simp

text \<open>
  C7. A run over a catalog that is not empty returns once the random sources hold enough
  draws. Every run that returns has exactly \<open>num_users\<close> rows (none when \<open>num_users\<close> is
  negative), with the user ids \<open>1, \<dots>, num_users\<close> in order; row \<open>k\<close> belongs to the
  \<open>k\<close>-th simulated user, its \<open>annual_visits\<close> is the sum of the twelve monthly draws of
  that user, \<open>company_revenue\<close> is \<open>user_annual_cost\<close>, \<open>company_cost\<close> is
  \<open>annual_visits * cost_per_visit\<close> and \<open>company_profit\<close> is revenue minus cost.
\<close>

theorem run_rows_identities:
  "(plans e \<noteq> [] \<and> enough_draws use_numpy c M (nat num_users) (12 * nat num_users) g \<longrightarrow>
      (\<exists>rows g'. run e use_numpy num_users g old = Inr (Some rows, g'))) \<and>
   (\<forall>rows g'. run e use_numpy num_users g old = Inr (Some rows, g') \<longrightarrow>
      (\<exists>us. synthetic_users use_numpy [1..num_users] g = Inr (us, g') \<and>
         length rows = nat num_users \<and> length us = nat num_users \<and>
         map user_id rows = [1..num_users] \<and>
         (\<forall>k<length rows.
            su_id (us ! k) = user_id (rows ! k) \<and> length (su_visits (us ! k)) = 12 \<and>
            annual_visits (rows ! k) = sum_list (su_visits (us ! k)) \<and>
            company_revenue (rows ! k) = user_annual_cost (rows ! k) \<and>
            company_cost (rows ! k) = of_int (annual_visits (rows ! k)) * cost_per_visit e \<and>
            company_profit (rows ! k) = company_revenue (rows ! k) - company_cost (rows ! k))))"
proof (intro conjI impI allI)
  assume a: "plans e \<noteq> [] \<and> enough_draws use_numpy c M (nat num_users) (12 * nat num_users) g"
  have len: "length [1..num_users] = nat num_users" by simp
  from a have "enough_draws use_numpy c M (length [1..num_users] + 0)
      (12 * length [1..num_users] + 0) g" by (simp only: len add_0_right)
  from synthetic_users_ok [OF this] obtain us g' where
    us: "synthetic_users use_numpy [1..num_users] g = Inr (us, g')" by blast
  from a rows_of_users obtain rows where "list_all2 (\<lambda>u r. row_of e u = Inr r) us rows"
    by blast
  with us have "run e use_numpy num_users g old = Inr (Some rows, g')"
    by (auto simp: run_Inr_iff)
  then show "\<exists>rows g'. run e use_numpy num_users g old = Inr (Some rows, g')" by blast
next
  fix rows g'
  assume r: "run e use_numpy num_users g old = Inr (Some rows, g')"
  then obtain us where us: "synthetic_users use_numpy [1..num_users] g = Inr (us, g')"
    and l: "list_all2 (\<lambda>u r. row_of e u = Inr r) us rows"
    by (auto simp: run_Inr_iff)
  from synthetic_users_fields [OF us] have ids: "map su_id us = [1..num_users]"
    and l12: "\<forall>u\<in>set us. length (su_visits u) = 12" by simp_all
  have lus: "length us = nat num_users" using ids by (metis length_map length_upto diff_add_cancel add.commute add_diff_cancel_left')
  have lr: "length rows = length us" using l by (simp add: list_all2_lengthD)
  have row: "row_of e (us ! k) = Inr (rows ! k)" if "k < length rows" for k
    using l that by (simp add: list_all2_conv_all_nth)
  have "map user_id rows = map su_id us"
  proof (rule nth_equalityI)
    show "length (map user_id rows) = length (map su_id us)" using lr by simp
  next
    fix k assume "k < length (map user_id rows)"
    then have k: "k < length rows" by simp
    from row_of_fields(1) [OF row [OF k]] show "map user_id rows ! k = map su_id us ! k"
      using k lr by simp
  qed
  then have uid: "map user_id rows = [1..num_users]" using ids by simp
  have each: "su_id (us ! k) = user_id (rows ! k) \<and> length (su_visits (us ! k)) = 12 \<and>
            annual_visits (rows ! k) = sum_list (su_visits (us ! k)) \<and>
            company_revenue (rows ! k) = user_annual_cost (rows ! k) \<and>
            company_cost (rows ! k) = of_int (annual_visits (rows ! k)) * cost_per_visit e \<and>
            company_profit (rows ! k) = company_revenue (rows ! k) - company_cost (rows ! k)"
    if k: "k < length rows" for k
  proof -
    note f = row_of_fields [OF row [OF k]]
    have "us ! k \<in> set us" using k lr by simp
    then have "length (su_visits (us ! k)) = 12" using l12 by blast
    with f show ?thesis by simp
  qed
  show "\<exists>us. synthetic_users use_numpy [1..num_users] g = Inr (us, g') \<and>
         length rows = nat num_users \<and> length us = nat num_users \<and>
         map user_id rows = [1..num_users] \<and>
         (\<forall>k<length rows.
            su_id (us ! k) = user_id (rows ! k) \<and> length (su_visits (us ! k)) = 12 \<and>
            annual_visits (rows ! k) = sum_list (su_visits (us ! k)) \<and>
            company_revenue (rows ! k) = user_annual_cost (rows ! k) \<and>
            company_cost (rows ! k) = of_int (annual_visits (rows ! k)) * cost_per_visit e \<and>
            company_profit (rows ! k) = company_revenue (rows ! k) - company_cost (rows ! k))"
    using us lr lus uid each by auto
qed

theorem run_rows_identities_witness:
  "\<exists>rows g'.
     run engine_init False 1 \<lparr>uniforms = replicate 13 0, np_poisson = []\<rparr> None
       = Inr (Some rows, g') \<and>
     length rows = 1 \<and> map user_id rows = [1] \<and>
     (\<forall>k<length rows.
        company_revenue (rows ! k) = user_annual_cost (rows ! k) \<and>
        company_cost (rows ! k) = of_int (annual_visits (rows ! k)) * 30 \<and>
        company_profit (rows ! k) = company_revenue (rows ! k) - company_cost (rows ! k))"
proof -
  let ?g = "\<lparr>uniforms = replicate 13 0, np_poisson = []\<rparr>"
  note t = run_rows_identities [of engine_init False 0 1 1 ?g None]
  have p: "plans engine_init \<noteq> []" by (simp add: engine_init_def)
  have f: "enough_draws False 0 1 (nat 1) (12 * nat 1) ?g" by (simp add: enough_draws_def)
  from t p f obtain rows g' where r: "run engine_init False 1 ?g None = Inr (Some rows, g')"
    by blast
  have cpv: "cost_per_visit engine_init = 30" by (simp add: engine_init_def)
  from t r have "length rows = nat 1 \<and> map user_id rows = [1..1] \<and>
     (\<forall>k<length rows.
        company_revenue (rows ! k) = user_annual_cost (rows ! k) \<and>
        company_cost (rows ! k) = of_int (annual_visits (rows ! k)) * cost_per_visit engine_init \<and>
        company_profit (rows ! k) = company_revenue (rows ! k) - company_cost (rows ! k))"
    by blast
  then have "length rows = 1 \<and> map user_id rows = [1] \<and>
     (\<forall>k<length rows.
        company_revenue (rows ! k) = user_annual_cost (rows ! k) \<and>
        company_cost (rows ! k) = of_int (annual_visits (rows ! k)) * 30 \<and>
        company_profit (rows ! k) = company_revenue (rows ! k) - company_cost (rows ! k))"
    by (simp add: cpv upto.simps)
  with r show ?thesis by (intro exI [of _ rows] exI [of _ g'] conjI) simp_all
qed

text \<open>
  C8. The segment of a draw \<open>u\<close> is Healthy exactly when \<open>u < 0.50\<close>, Average exactly when
  \<open>0.50 \<le> u < 0.80\<close> and Chronic exactly when \<open>0.80 \<le> u\<close>; the result is always one of
  the three segments with its rate, and the assignment has no error result.
\<close>

theorem assign_segment_partition:
  "(fst (assign_segment u) = ''Healthy'' \<longleftrightarrow> u < 0.50) \<and>
   (fst (assign_segment u) = ''Average'' \<longleftrightarrow> 0.50 \<le> u \<and> u < 0.80) \<and>
   (fst (assign_segment u) = ''Chronic'' \<longleftrightarrow> 0.80 \<le> u) \<and>
   assign_segment u \<in> {(''Healthy'', 1), (''Average'', 5), (''Chronic'', 12)}"
  by (simp add: assign_segment_def)

text \<open>
  C9 (corrected). Two executions of \<^verbatim>\<open>run\<close> with the same engine and number of users
  that read the same uniform draws and, when numpy is used, the same results of its Poisson
  sampler, leave the same rows, or fail alike, and \<^verbatim>\<open>analyze\<close> then gives the same
  report, whatever the database held before each execution. In the fallback the uniform
  draws alone decide, whatever the numpy source holds.
\<close>

theorem run_deterministic:
  assumes "uniforms g1 = uniforms g2"
    and "use_numpy \<longrightarrow> np_poisson g1 = np_poisson g2"
  shows "map_sum id fst (run e use_numpy num_users g1 old1) =
           map_sum id fst (run e use_numpy num_users g2 old2) \<and>
         bind_err (run e use_numpy num_users g1 old1) (\<lambda>(d, g'). analyze d) =
           bind_err (run e use_numpy num_users g2 old2) (\<lambda>(d, g'). analyze d)"
proof (cases use_numpy)
  case True
  with assms have "g1 = g2" by simp
  then show ?thesis using run_old [of e use_numpy num_users g2 old1 old2] by simp
next
  case False
  have "g2 = g1\<lparr>np_poisson := np_poisson g2\<rparr>" using assms(1) by simp
  then have "run e False num_users g2 old2 =
      map_sum id (apsnd (\<lambda>g. g\<lparr>np_poisson := np_poisson g2\<rparr>)) (run e False num_users g1 old2)"
    using run_np [where g = g1 and x = "np_poisson g2" and e = e and n = num_users and old = old2]
    by simp
  also have "run e False num_users g1 old2 = run e False num_users g1 old1" by (rule run_old)
  finally have eq: "run e False num_users g2 old2 =
      map_sum id (apsnd (\<lambda>g. g\<lparr>np_poisson := np_poisson g2\<rparr>)) (run e False num_users g1 old1)" .
  show ?thesis
  proof (cases "run e False num_users g1 old1")
    case (Inl er)
    then show ?thesis using eq False by simp
  next
    case (Inr dg)
    obtain d g' where "dg = (d, g')" by (cases dg)
    then show ?thesis using Inr eq False by simp
  qed
qed

theorem run_deterministic_witness:
  "map_sum id fst
     (run engine_init False 1 \<lparr>uniforms = replicate 13 0, np_poisson = []\<rparr> None) =
   map_sum id fst
     (run engine_init False 1 \<lparr>uniforms = replicate 13 0, np_poisson = [5]\<rparr> (Some [])) \<and>
   bind_err (run engine_init False 1 \<lparr>uniforms = replicate 13 0, np_poisson = []\<rparr> None)
     (\<lambda>(d, g'). analyze d) =
   bind_err (run engine_init False 1 \<lparr>uniforms = replicate 13 0, np_poisson = [5]\<rparr> (Some []))
     (\<lambda>(d, g'). analyze d)"
  using run_deterministic
    [where ?g1.0 = "\<lparr>uniforms = replicate 13 0, np_poisson = []\<rparr>"
       and ?g2.0 = "\<lparr>uniforms = replicate 13 0, np_poisson = [5]\<rparr>"
       and use_numpy = False and e = engine_init and num_users = 1
       and ?old1.0 = None and ?old2.0 = "Some []"]
  by simp

text \<open>
  C9, as first stated, fails when numpy is used: the uniform draws fix the segment only, and
  the visit counts come from numpy's own generator. With the same uniform draw 0.6 and
  the default engine, twelve visit counts of 6 give the Standard plan at 600 and twelve
  visit counts of 0 give the Lite plan at 240.
\<close>

theorem run_uniforms_alone_counterexample:
  "uniforms \<lparr>uniforms = [0.6], np_poisson = replicate 12 6\<rparr> =
     uniforms \<lparr>uniforms = [0.6], np_poisson = replicate 12 0\<rparr> \<and>
   map_sum id fst
     (run engine_init True 1 \<lparr>uniforms = [0.6], np_poisson = replicate 12 6\<rparr> None) \<noteq>
   map_sum id fst
     (run engine_init True 1 \<lparr>uniforms = [0.6], np_poisson = replicate 12 0\<rparr> None)"
proof -
  have r1: "run engine_init True 1 \<lparr>uniforms = [0.6], np_poisson = replicate 12 6\<rparr> None =
    Inr (Some [\<lparr>user_id = 1, user_type = ''Average'', annual_visits = 72,
             chosen_plan = ''Standard Plan'', user_annual_cost = 600,
             company_revenue = 600, company_cost = 2160, company_profit = - 1560\<rparr>],
         \<lparr>uniforms = [], np_poisson = []\<rparr>)"
    by (simp add: run_defs)
  have r2: "run engine_init True 1 \<lparr>uniforms = [0.6], np_poisson = replicate 12 0\<rparr> None =
    Inr (Some [\<lparr>user_id = 1, user_type = ''Average'', annual_visits = 0,
             chosen_plan = ''Lite Plan'', user_annual_cost = 240,
             company_revenue = 240, company_cost = 0, company_profit = 240\<rparr>],
         \<lparr>uniforms = [], np_poisson = []\<rparr>)"
    by (simp add: run_defs)
  show ?thesis unfolding r1 r2 by simp
qed

text \<open>
  C10. A plan whose price of an extra visit is not negative bills at least its monthly
  price, for every visit count. When no price of the catalog is negative, the
  \<open>user_annual_cost\<close> of every row of a run, which is also its \<open>company_revenue\<close>, is at
  least twelve times the least monthly price of the catalog.
\<close>

theorem revenue_lower_bound:
  assumes "\<forall>p\<in>set (plans e). 0 \<le> price p \<and> 0 \<le> extra p"
    and "run e use_numpy num_users g old = Inr (Some rows, g')"
    and "r \<in> set rows"
  shows "(\<forall>q v. 0 \<le> extra q \<longrightarrow> price q \<le> monthly_bill q v) \<and>
    12 * Min (price ` set (plans e)) \<le> user_annual_cost r \<and>
    company_revenue r = user_annual_cost r"
proof -
  let ?ps = "plans e"
  have bills: "\<forall>p\<in>set ?ps. \<forall>v. price p \<le> monthly_bill p v"
    using assms(1) by (simp add: monthly_bill_ge_price)
  from assms(2) obtain us where us: "synthetic_users use_numpy [1..num_users] g = Inr (us, g')"
    and l: "list_all2 (\<lambda>u r. row_of e u = Inr r) us rows"
    by (auto simp: run_Inr_iff)
  from assms(3) obtain k where k: "k < length rows" "r = rows ! k"
    by (auto simp: in_set_conv_nth)
  let ?u = "us ! k"
  have ro: "row_of e ?u = Inr r" using l k by (simp add: list_all2_conv_all_nth)
  have "?u \<in> set us" using l k by (simp add: list_all2_conv_all_nth)
  then have l12: "length (su_visits ?u) = 12" using synthetic_users_fields [OF us] by blast
  let ?d = "year_costs ?ps (su_visits ?u)"
  from row_of_choice [OF ro] obtain i where i: "first_min (map snd ?d) i"
    "chosen_plan r = fst (?d ! i)" "user_annual_cost r = snd (?d ! i)" by blast
  from i(1) have ilen: "i < length (init_costs ?ps)"
    by (simp add: first_min_def year_costs_def)
  obtain key c where kc: "init_costs ?ps ! i = (key, c)" by (cases "init_costs ?ps ! i")
  have mem: "(key, c) \<in> set (init_costs ?ps)" using ilen kc by (metis nth_mem)
  then have c0: "c = 0" using init_costs_zero by fastforce
  from mem have "key \<in> fst ` set (init_costs ?ps)" by force
  then obtain p0 where p0: "p0 \<in> set ?ps" "name p0 = key" by (auto simp: init_costs_dom)
  have cost: "user_annual_cost r = sum_list (map (\<lambda>v. bill_for ?ps v key) (su_visits ?u))"
    using i(3) ilen kc c0 by (simp add: year_costs_def)
  have fin: "finite (price ` set ?ps)" by simp
  have minle: "Min (price ` set ?ps) \<le> price p0" using p0(1) by simp
  have "Min (price ` set ?ps) \<le> bill_for ?ps v key" for v
  proof -
    have "0 \<le> monthly_bill p v" if "p \<in> set ?ps" for p
    proof -
      have "0 \<le> price p" "price p \<le> monthly_bill p v" using assms(1) bills that by auto
      then show ?thesis by linarith
    qed
    then have "\<forall>x\<in>set (map (\<lambda>p. monthly_bill p v) (filter (\<lambda>p. name p = key) ?ps)). 0 \<le> x"
      by auto
    moreover have "monthly_bill p0 v \<in> set (map (\<lambda>p. monthly_bill p v) (filter (\<lambda>p. name p = key) ?ps))"
      using p0 by auto
    ultimately have "monthly_bill p0 v \<le> bill_for ?ps v key"
      unfolding bill_for_def by (rule member_le_sum_list_real)
    moreover have "price p0 \<le> monthly_bill p0 v" using bills p0(1) by blast
    ultimately show ?thesis using minle by linarith
  qed
  then have "of_nat (length (su_visits ?u)) * Min (price ` set ?ps)
      \<le> sum_list (map (\<lambda>v. bill_for ?ps v key) (su_visits ?u))"
    by (intro sum_list_lower_bound) simp
  then have "12 * Min (price ` set ?ps) \<le> user_annual_cost r" using l12 cost by simp
  moreover have "company_revenue r = user_annual_cost r" using row_of_fields(4) [OF ro] .
  ultimately show ?thesis using monthly_bill_ge_price by blast
qed

theorem revenue_lower_bound_witness:
  "\<exists>rows g'.
     run engine_init True 1 \<lparr>uniforms = [0.1], np_poisson = replicate 12 0\<rparr> None
       = Inr (Some rows, g') \<and> rows \<noteq> [] \<and>
     (\<forall>r\<in>set rows. 240 \<le> user_annual_cost r \<and> company_revenue r = user_annual_cost r)"
proof -
  let ?g = "\<lparr>uniforms = [0.1], np_poisson = replicate 12 0\<rparr>"
  obtain rows g' where r: "run engine_init True 1 ?g None = Inr (Some rows, g')"
    and l: "length rows = 1"
    by (simp add: run_defs)
  have a: "\<forall>p\<in>set (plans engine_init). 0 \<le> price p \<and> 0 \<le> extra p"
    by (simp add: engine_init_def)
  have m: "12 * Min (price ` set (plans engine_init)) = 240"
    by (simp add: engine_init_def)
  have "240 \<le> user_annual_cost x \<and> company_revenue x = user_annual_cost x"
    if "x \<in> set rows" for x
    using revenue_lower_bound [OF a r that] m by simp
  moreover have "rows \<noteq> []" using l by auto
  ultimately show ?thesis using r by blast
qed

end
